theory Spec2Isabelle
  imports Main "HOL-Library.Word"
begin

unbundle bit_operations_syntax

section \<open>Weight packing and unpacking (notebook QuantizationInDepth P4)\<close>

text \<open>
  The notebook defines two functions over one-dimensional \<open>torch.uint8\<close> tensors:
  \<open>pack_weights(uint8tensor, bits)\<close> and \<open>unpack_weights(uint8tensor, bits)\<close>.
  A tensor is modelled as a list of 8-bit words, \<open>bits\<close> as an unbounded Python
  integer. The exceptions the code raises for a \<open>bits\<close> of moderate magnitude are the
  values of \<open>error\<close>. Two steps of the code also fail for numbers of extreme
  magnitude, which the model does not cover: see \<open>zeros\<close> and \<open>mask_of\<close> below.
  Every statement about an unsupported \<open>bits\<close> is therefore made for
  \<open>- 64 \<le> bits \<le> 64\<close> only.
\<close>

subsection \<open>Data model\<close>

type_synonym uint8 = "8 word"

text \<open>
  \<open>ValueError m\<close>: the explicit \<open>raise ValueError(f"The input length must be a
  multiple of {8 // bits}")\<close> of \<open>pack_weights\<close>; \<open>m\<close> is the number rendered in the
  message. \<open>ZeroDivisionError\<close>: Python's \<open>//\<close> with divisor 0.
  \<open>RuntimeError\<close>: \<open>torch.zeros\<close> called with a negative dimension.
  \<open>IndexError\<close>: a tensor indexed outside its length.
\<close>

datatype error = ValueError int | ZeroDivisionError | RuntimeError | IndexError

subsection \<open>Python and torch primitives\<close>

text \<open>Sequencing of fallible steps: the first exception aborts the rest.\<close>

definition then_do :: "error + 'a \<Rightarrow> ('a \<Rightarrow> error + 'b) \<Rightarrow> error + 'b" where
  "then_do r f = (case r of Inl e \<Rightarrow> Inl e | Inr a \<Rightarrow> f a)"

text \<open>Python's \<open>a // b\<close> on integers: floor division, raising on a zero divisor.\<close>

definition floordiv :: "int \<Rightarrow> int \<Rightarrow> error + int" where
  "floordiv a b = (if b = 0 then Inl ZeroDivisionError else Inr (a div b))"

text \<open>
  \<open>torch.zeros((n,), dtype=torch.uint8)\<close>, for a size that fits torch's 64-bit size
  type. A size of magnitude \<open>2 ^ 63\<close> or more makes torch raise an overflow error
  instead; with \<open>- 64 \<le> bits \<le> 64\<close> such a size needs an input of at least
  \<open>2 ^ 60\<close> elements, and the model leaves it out.
\<close>

definition zeros :: "int \<Rightarrow> error + uint8 list" where
  "zeros n = (if n < 0 then Inl RuntimeError else Inr (replicate (nat n) 0))"

text \<open>
  \<open>a << b\<close> and \<open>a >> b\<close> for a zero-dimensional uint8 tensor \<open>a\<close> and a Python
  integer \<open>b\<close>: the result stays uint8, so bits shifted beyond bit 7 are dropped; a
  shift amount that is negative or at least the width gives 0.
\<close>

definition lshift :: "uint8 \<Rightarrow> int \<Rightarrow> uint8" where
  "lshift a b = (if b < 0 \<or> 8 \<le> b then 0 else push_bit (nat b) a)"

definition rshift :: "uint8 \<Rightarrow> int \<Rightarrow> uint8" where
  "rshift a b = (if b < 0 \<or> 8 \<le> b then 0 else drop_bit (nat b) a)"

text \<open>
  \<open>for k in ks: body\<close> over a state; \<open>for k in range(n)\<close> runs over
  \<open>0, ..., n - 1\<close> and not at all when \<open>n \<le> 0\<close>.
\<close>

fun for_loop :: "nat list \<Rightarrow> (nat \<Rightarrow> 's \<Rightarrow> error + 's) \<Rightarrow> 's \<Rightarrow> error + 's" where
  "for_loop [] body s = Inr s"
| "for_loop (k # ks) body s =
     (case body k s of Inl e \<Rightarrow> Inl e | Inr s' \<Rightarrow> for_loop ks body s')"

definition for_range :: "int \<Rightarrow> (nat \<Rightarrow> 's \<Rightarrow> error + 's) \<Rightarrow> 's \<Rightarrow> error + 's" where
  "for_range n body s = for_loop [0..<nat n] body s"

subsection \<open>The packer\<close>

text \<open>
  The body of the inner loop, on the state \<open>(packed_tensor, unpacked_idx)\<close>:
  \<^verbatim>\<open>packed_tensor[i] |= uint8tensor[unpacked_idx] << (bits * j)\<close>
  \<^verbatim>\<open>unpacked_idx += 1\<close>
\<close>

definition pack_body ::
  "uint8 list \<Rightarrow> int \<Rightarrow> nat \<Rightarrow> nat \<Rightarrow> uint8 list \<times> nat \<Rightarrow> error + uint8 list \<times> nat" where
  "pack_body uint8tensor bits i j s =
     (case s of (packed_tensor, unpacked_idx) \<Rightarrow>
        if i < length packed_tensor then
          if unpacked_idx < length uint8tensor then
            Inr (packed_tensor[i := (packed_tensor ! i) OR
                   lshift (uint8tensor ! unpacked_idx) (bits * int j)],
                 unpacked_idx + 1)
          else Inl IndexError
        else Inl IndexError)"

definition pack_weights :: "uint8 list \<Rightarrow> int \<Rightarrow> error + uint8 list" where
  "pack_weights uint8tensor bits =
     (if int (length uint8tensor) * bits mod 8 \<noteq> 0 then
        then_do (floordiv 8 bits) (\<lambda>m. Inl (ValueError m))
      else
        then_do (floordiv (int (length uint8tensor) * bits) 8) (\<lambda>num_values.
        then_do (floordiv 8 bits) (\<lambda>num_steps.
        then_do (zeros num_values) (\<lambda>packed_tensor.
        then_do (for_range num_values
                   (\<lambda>i. for_range num_steps (pack_body uint8tensor bits i))
                   (packed_tensor, 0))
          (\<lambda>s. Inr (fst s))))))"

subsection \<open>The unpacker\<close>

text \<open>
  \<open>mask = 2 ** bits - 1\<close>, which the code evaluates once, before the loops. For a
  negative \<open>bits\<close> Python computes a float here; the mask is then never read, because
  either the allocation has already raised or the input is empty and the loop body does
  not run. The evaluation itself completes for every \<open>bits\<close> of moderate magnitude
  (it cannot for a \<open>bits\<close> like \<open>2 ^ 64\<close>, and a negative \<open>bits\<close> beyond the range
  of a float raises OverflowError): the model covers \<open>- 64 \<le> bits \<le> 64\<close>, where it
  always does.
\<close>

definition mask_of :: "int \<Rightarrow> int" where
  "mask_of bits = 2 ^ nat bits - 1"

text \<open>
  The body of the inner loop, on the state \<open>(unpacked_tensor, unpacked_idx)\<close>:
  \<^verbatim>\<open>val = uint8tensor[i] >> (bits * j)\<close>
  \<^verbatim>\<open>unpacked_tensor[unpacked_idx] = val & mask\<close>
  \<^verbatim>\<open>unpacked_idx += 1\<close>
\<close>

definition unpack_body ::
  "uint8 list \<Rightarrow> int \<Rightarrow> int \<Rightarrow> nat \<Rightarrow> nat \<Rightarrow> uint8 list \<times> nat \<Rightarrow> error + uint8 list \<times> nat" where
  "unpack_body uint8tensor bits mask_int i j s =
     (case s of (unpacked_tensor, unpacked_idx) \<Rightarrow>
        if i < length uint8tensor then
          let val = rshift (uint8tensor ! i) (bits * int j) in
          if unpacked_idx < length unpacked_tensor then
            Inr (unpacked_tensor[unpacked_idx := val AND word_of_int mask_int],
                 unpacked_idx + 1)
          else Inl IndexError
        else Inl IndexError)"

definition unpack_weights :: "uint8 list \<Rightarrow> int \<Rightarrow> error + uint8 list" where
  "unpack_weights uint8tensor bits =
     then_do (floordiv (int (length uint8tensor) * 8) bits) (\<lambda>num_values.
     then_do (floordiv 8 bits) (\<lambda>num_steps.
     then_do (zeros num_values) (\<lambda>unpacked_tensor.
     then_do (for_range (int (length uint8tensor))
                (\<lambda>i. for_range num_steps (unpack_body uint8tensor bits (mask_of bits) i))
                (unpacked_tensor, 0))
       (\<lambda>s. Inr (fst s)))))"

subsection \<open>What one pass of each inner loop computes\<close>

text \<open>
  \<open>or_fields bits f r\<close> is the value the inner loop of \<open>pack_weights\<close> has ORed into
  one output byte after \<open>r\<close> steps, when step \<open>j\<close> reads the element \<open>f j\<close>:
  the OR of \<open>f j << (bits * j)\<close> for \<open>j < r\<close>.
\<close>

fun or_fields :: "int \<Rightarrow> (nat \<Rightarrow> uint8) \<Rightarrow> nat \<Rightarrow> uint8" where
  "or_fields bits f 0 = 0"
| "or_fields bits f (Suc r) = or_fields bits f r OR lshift (f r) (bits * int r)"

text \<open>
  \<open>field_at bits b j\<close> is the value the inner loop of \<open>unpack_weights\<close> stores at
  step \<open>j\<close> for the input byte \<open>b\<close>: \<open>(b >> (bits * j)) & mask\<close>.
\<close>

definition field_at :: "int \<Rightarrow> uint8 \<Rightarrow> nat \<Rightarrow> uint8" where
  "field_at bits b j = rshift b (bits * int j) AND word_of_int (mask_of bits)"

section \<open>Sequencing and loops\<close>

lemma then_do_Inr [simp]: "then_do (Inr a) f = f a"
  by (simp add: then_do_def)

lemma then_do_Inl [simp]: "then_do (Inl e) f = Inl e"
  by (simp add: then_do_def)

lemma for_loop_append:
  "for_loop (xs @ ys) body s = then_do (for_loop xs body s) (for_loop ys body)"
  by (induction xs arbitrary: s) (auto split: sum.splits)

lemma for_loop_upt_Suc:
  "for_loop [0..<Suc n] body s = then_do (for_loop [0..<n] body s) (body n)"
  by (cases "for_loop [0..<n] body s") (auto simp: for_loop_append split: sum.splits)

lemma replicate_update_hd:
  "m < N \<Longrightarrow> (replicate (N - m) (0::uint8))[0 := x] = x # replicate (N - Suc m) 0"
  by (cases "N - m") (auto simp: Suc_diff_Suc)

lemma pack_inner:
  "i < length packed \<Longrightarrow> idx + r \<le> length u \<Longrightarrow>
   for_loop [0..<r] (pack_body u bits i) (packed, idx)
     = Inr (packed[i := packed ! i OR or_fields bits (\<lambda>j. u ! (idx + j)) r], idx + r)"
proof (induction r)
  case 0
  then show ?case by simp
next
  case (Suc r)
  let ?P = "packed[i := packed ! i OR or_fields bits (\<lambda>j. u ! (idx + j)) r]"
  from Suc have prev: "for_loop [0..<r] (pack_body u bits i) (packed, idx) = Inr (?P, idx + r)"
    by simp
  have step: "pack_body u bits i r (?P, idx + r)
      = Inr (packed[i := packed ! i OR or_fields bits (\<lambda>j. u ! (idx + j)) (Suc r)],
             idx + Suc r)"
    using Suc.prems by (simp add: pack_body_def or.assoc)
  show ?case
    by (simp only: for_loop_upt_Suc prev then_do_Inr step)
qed

lemma pack_outer:
  "m \<le> N \<Longrightarrow> m * r \<le> length u \<Longrightarrow>
   for_loop [0..<m] (\<lambda>i. for_loop [0..<r] (pack_body u bits i)) (replicate N 0, 0)
     = Inr (map (\<lambda>i. or_fields bits (\<lambda>j. u ! (i * r + j)) r) [0..<m] @ replicate (N - m) 0,
            m * r)"
proof (induction m)
  case 0
  then show ?case by simp
next
  case (Suc m)
  let ?A = "map (\<lambda>i. or_fields bits (\<lambda>j. u ! (i * r + j)) r) [0..<m]"
  let ?L = "?A @ replicate (N - m) (0::uint8)"
  from Suc.prems have m: "m < N" and mr: "m * r + r \<le> length u" by simp_all
  then have prev: "for_loop [0..<m] (\<lambda>i. for_loop [0..<r] (pack_body u bits i)) (replicate N 0, 0)
      = Inr (?L, m * r)"
    using Suc.IH by simp
  have len: "m < length ?L" using m by simp
  have nth: "?L ! m = 0" using m by (simp add: nth_append)
  have upd: "?L[m := x] = ?A @ x # replicate (N - Suc m) 0" for x
    using m by (simp add: list_update_append replicate_update_hd)
  show ?case
    by (simp only: for_loop_upt_Suc prev then_do_Inr pack_inner [OF len mr] nth upd)
       simp
qed

lemma unpack_inner:
  "i < length p \<Longrightarrow> r \<le> q \<Longrightarrow>
   for_loop [0..<r] (unpack_body p bits (mask_of bits) i) (A @ replicate q 0, length A)
     = Inr (A @ map (field_at bits (p ! i)) [0..<r] @ replicate (q - r) 0, length A + r)"
proof (induction r)
  case 0
  then show ?case by simp
next
  case (Suc r)
  from Suc.prems have r: "r < q" by simp
  have upd: "(A @ map (field_at bits (p ! i)) [0..<r] @ replicate (q - r) 0)[length A + r := x]
      = A @ map (field_at bits (p ! i)) [0..<r] @ x # replicate (q - Suc r) 0" for x
    using r by (simp add: list_update_append replicate_update_hd)
  let ?S = "A @ map (field_at bits (p ! i)) [0..<r] @ replicate (q - r) 0"
  from Suc have prev: "for_loop [0..<r] (unpack_body p bits (mask_of bits) i)
      (A @ replicate q 0, length A) = Inr (?S, length A + r)"
    by simp
  have step: "unpack_body p bits (mask_of bits) i r (?S, length A + r)
      = Inr (A @ map (field_at bits (p ! i)) [0..<Suc r] @ replicate (q - Suc r) 0,
             length A + Suc r)"
    using Suc.prems r by (simp add: unpack_body_def upd field_at_def)
  show ?case
    by (simp only: for_loop_upt_Suc prev then_do_Inr step)
qed

lemma length_concat_fields:
  "length (concat (map (\<lambda>i. map (g i) [0..<r]) [0..<m])) = m * r"
  by (induction m) simp_all

lemma unpack_outer:
  "m \<le> length p \<Longrightarrow> m * r \<le> N \<Longrightarrow>
   for_loop [0..<m] (\<lambda>i. for_loop [0..<r] (unpack_body p bits (mask_of bits) i))
     (replicate N 0, 0)
     = Inr (concat (map (\<lambda>i. map (field_at bits (p ! i)) [0..<r]) [0..<m])
              @ replicate (N - m * r) 0, m * r)"
proof (induction m)
  case 0
  then show ?case by simp
next
  case (Suc m)
  let ?A = "concat (map (\<lambda>i. map (field_at bits (p ! i)) [0..<r]) [0..<m])"
  from Suc.prems have m: "m < length p" and rq: "r \<le> N - m * r" by simp_all
  have lenA: "length ?A = m * r" by (rule length_concat_fields)
  have prev: "for_loop [0..<m] (\<lambda>i. for_loop [0..<r] (unpack_body p bits (mask_of bits) i))
      (replicate N 0, 0) = Inr (?A @ replicate (N - m * r) 0, length ?A)"
    using Suc by (simp add: lenA)
  show ?case
    by (simp only: for_loop_upt_Suc prev then_do_Inr unpack_inner [OF m rq])
       (simp add: lenA)
qed

section \<open>Index arithmetic\<close>

lemma steps_fit_int:
  fixes L b :: int
  assumes "0 < b" "0 \<le> L"
  shows "(L * b div 8) * (8 div b) \<le> L"
proof -
  have "(8 div b) * b \<le> 8"
    using assms(1) by (metis div_mult_mod_eq mult.commute pos_mod_sign le_add_same_cancel1)
  moreover have "0 \<le> L * b div 8" using assms by (simp add: pos_imp_zdiv_nonneg_iff)
  ultimately have "(L * b div 8) * ((8 div b) * b) \<le> (L * b div 8) * 8"
    by (rule mult_left_mono)
  also have "\<dots> \<le> L * b"
    by (metis div_mult_mod_eq pos_mod_sign le_add_same_cancel1 zero_less_numeral)
  finally have "((L * b div 8) * (8 div b)) * b \<le> L * b" by (simp add: mult.assoc)
  then show ?thesis using assms(1) by (simp add: mult_le_cancel_right)
qed

lemma values_fit_int:
  fixes L b :: int
  assumes "0 < b" "0 \<le> L"
  shows "L * (8 div b) \<le> L * 8 div b"
proof -
  have "(8 div b) * b \<le> 8"
    using assms(1) by (metis div_mult_mod_eq pos_mod_sign le_add_same_cancel1)
  then have "L * ((8 div b) * b) \<le> L * 8"
    using assms(2) by (rule mult_left_mono)
  then have "(L * (8 div b)) * b div b \<le> L * 8 div b"
    using assms(1) by (intro zdiv_mono1) (simp_all add: mult.assoc)
  then show ?thesis using assms(1) by simp
qed

lemma steps_fit:
  assumes "0 < bits"
  shows "nat (int (length u) * bits div 8) * nat (8 div bits) \<le> length u"
proof -
  have nn: "0 \<le> int (length u) * bits div 8"
    using assms by (simp add: pos_imp_zdiv_nonneg_iff)
  have "(int (length u) * bits div 8) * (8 div bits) \<le> int (length u)"
    using assms by (intro steps_fit_int) simp_all
  then have "nat ((int (length u) * bits div 8) * (8 div bits)) \<le> length u"
    by simp
  then show ?thesis using nn by (simp add: nat_mult_distrib)
qed

lemma values_fit:
  assumes "0 < bits"
  shows "length p * nat (8 div bits) \<le> nat (int (length p) * 8 div bits)"
proof -
  have "int (length p) * (8 div bits) \<le> int (length p) * 8 div bits"
    using assms by (intro values_fit_int) simp_all
  then have "nat (int (length p) * (8 div bits)) \<le> nat (int (length p) * 8 div bits)"
    by (rule nat_mono)
  then show ?thesis by (simp add: nat_mult_distrib)
qed

lemma for_range_eq: "for_range n body = for_loop [0..<nat n] body"
  by (rule ext) (simp add: for_range_def)

lemma pack_weights_closed:
  assumes "0 < bits" and "int (length u) * bits mod 8 = 0"
  shows "pack_weights u bits
    = Inr (map (\<lambda>i. or_fields bits (\<lambda>j. u ! (i * nat (8 div bits) + j)) (nat (8 div bits)))
             [0..<nat (int (length u) * bits div 8)])"
proof -
  have nn: "\<not> int (length u) * bits div 8 < 0"
    using assms(1) by (simp add: not_less pos_imp_zdiv_nonneg_iff)
  show ?thesis
    using assms nn
    by (simp add: pack_weights_def floordiv_def zeros_def for_range_eq
        pack_outer [OF order_refl steps_fit [OF assms(1)]])
qed

lemma map_nth_fun: "map (\<lambda>i. g (xs ! i)) [0..<length xs] = map g xs"
  by (rule nth_equalityI) simp_all

lemma unpack_weights_closed:
  assumes "0 < bits"
  shows "unpack_weights p bits
    = Inr (concat (map (\<lambda>b. map (field_at bits b) [0..<nat (8 div bits)]) p)
           @ replicate (nat (int (length p) * 8 div bits) - length p * nat (8 div bits)) 0)"
proof -
  have nn: "\<not> int (length p) * 8 div bits < 0"
    using assms(1) by (simp add: not_less pos_imp_zdiv_nonneg_iff)
  show ?thesis
    using assms nn map_nth_fun [of "\<lambda>b. map (field_at bits b) [0..<nat (8 div bits)]" p]
    by (simp add: unpack_weights_def floordiv_def zeros_def for_range_eq
        unpack_outer [OF order_refl values_fit [OF assms(1)]])
qed

section \<open>Bits of the packed byte\<close>

lemma lshift_push: "0 \<le> b \<Longrightarrow> lshift a b = push_bit (nat b) a"
  by (auto simp: lshift_def bit_eq_iff bit_simps)

lemma rshift_drop: "0 \<le> b \<Longrightarrow> rshift a b = drop_bit (nat b) a"
  by (auto simp: rshift_def bit_eq_iff bit_simps dest: bit_imp_le_length)

lemma in_range_take_bit:
  fixes x :: uint8
  assumes "uint x \<le> 2 ^ n - 1"
  shows "take_bit n x = x"
proof -
  have "uint x < 2 ^ n" using assms by simp
  then have "take_bit n (uint x) = uint x"
    by (simp add: take_bit_int_eq_self)
  then have "uint (take_bit n x) = uint x"
    by (simp add: unsigned_take_bit_eq)
  then show ?thesis by (rule word_uint_eqI)
qed

lemma in_range_bit:
  fixes x :: uint8
  assumes "uint x \<le> 2 ^ n - 1" and "bit x m"
  shows "m < n"
proof -
  have "bit (take_bit n x) m" using assms by (simp add: in_range_take_bit)
  then show ?thesis by (simp add: bit_take_bit_iff)
qed

lemma word_of_mask_of: "0 \<le> bits \<Longrightarrow> (word_of_int (mask_of bits) :: uint8) = mask (nat bits)"
  by (simp add: mask_of_def mask_eq_exp_minus_1)

lemma field_eq:
  "0 \<le> bits \<Longrightarrow> field_at bits b j = take_bit (nat bits) (drop_bit (nat bits * j) b)"
  by (simp add: field_at_def rshift_drop word_of_mask_of take_bit_eq_mask nat_mult_distrib)

lemma bit_or_fields:
  "0 \<le> bits \<Longrightarrow>
   bit (or_fields bits f r) q
     \<longleftrightarrow> (\<exists>j<r. nat bits * j \<le> q \<and> q < 8 \<and> bit (f j) (q - nat bits * j))"
proof (induction r)
  case 0
  then show ?case by simp
next
  case (Suc r)
  then show ?case
    by (auto simp: bit_or_iff lshift_push bit_push_bit_iff nat_mult_distrib less_Suc_eq
        dest: bit_imp_le_length)
qed

lemma field_in_range: "0 \<le> bits \<Longrightarrow> uint (field_at bits b j) \<le> 2 ^ nat bits - 1"
proof -
  assume "0 \<le> bits"
  then have "uint (field_at bits b j) = take_bit (nat bits) (uint (drop_bit (nat bits * j) b))"
    by (simp add: field_eq unsigned_take_bit_eq)
  also have "\<dots> < 2 ^ nat bits" by (rule take_bit_int_less_exp)
  finally show ?thesis by simp
qed

lemma same_slot:
  fixes n j k q :: nat
  assumes "n * j \<le> n * k + q" and "n * k + q - n * j < n" and "q < n"
  shows "j = k"
proof -
  have "n * j < n * (k + 1)" using assms(1,3) by (simp add: algebra_simps)
  then have "j < k + 1" by (simp only: mult_less_cancel1)
  moreover have "n * k < n * (j + 1)" using assms(1,2) by (simp add: algebra_simps)
  then have "k < j + 1" by (simp only: mult_less_cancel1)
  ultimately show ?thesis by simp
qed

lemma field_or_fields:
  assumes bits: "0 < bits" and fit: "nat bits * r \<le> 8"
    and range: "\<And>j. j < r \<Longrightarrow> uint (f j) \<le> 2 ^ nat bits - 1" and k: "k < r"
  shows "field_at bits (or_fields bits f r) k = f k"
proof (rule bit_eqI)
  fix q
  let ?n = "nat bits"
  have top: "?n * k + ?n \<le> 8"
  proof -
    have "?n * (k + 1) \<le> ?n * r" using k by (intro mult_le_mono2) simp
    then show ?thesis using fit by (simp add: algebra_simps)
  qed
  show "bit (field_at bits (or_fields bits f r) k) q \<longleftrightarrow> bit (f k) q"
  proof
    assume "bit (field_at bits (or_fields bits f r) k) q"
    then have q: "q < ?n" and "bit (or_fields bits f r) (?n * k + q)"
      using bits by (simp_all add: field_eq bit_take_bit_iff bit_drop_bit_eq)
    then obtain j where j: "j < r" "?n * j \<le> ?n * k + q" "bit (f j) (?n * k + q - ?n * j)"
      using bits by (auto simp: bit_or_fields)
    from range [OF j(1)] j(3) have "?n * k + q - ?n * j < ?n" by (rule in_range_bit)
    with j(2) q have "j = k" by (intro same_slot)
    with j(3) show "bit (f k) q" by simp
  next
    assume b: "bit (f k) q"
    with range [OF k] have q: "q < ?n" by (rule in_range_bit)
    then have "?n * k + q < 8" using top by simp
    with b k have "bit (or_fields bits f r) (?n * k + q)"
      using bits by (auto simp: bit_or_fields)
    with q show "bit (field_at bits (or_fields bits f r) k) q"
      using bits by (simp add: field_eq bit_take_bit_iff bit_drop_bit_eq)
  qed
qed

lemma or_fields_field:
  assumes bits: "0 < bits" and fit: "nat bits * r = 8"
  shows "or_fields bits (field_at bits b) r = b"
proof (rule bit_eqI)
  fix q
  let ?n = "nat bits"
  have n: "0 < ?n" using bits by simp
  show "bit (or_fields bits (field_at bits b) r) q \<longleftrightarrow> bit b q"
  proof
    assume "bit (or_fields bits (field_at bits b) r) q"
    then obtain j where "?n * j \<le> q" "bit (field_at bits b j) (q - ?n * j)"
      using bits by (auto simp: bit_or_fields)
    then show "bit b q"
      using bits by (simp add: field_eq bit_take_bit_iff bit_drop_bit_eq)
  next
    assume b: "bit b q"
    then have q: "q < 8" by (auto dest: bit_imp_le_length)
    let ?j = "q div ?n"
    have "?n * ?j < ?n * r" using q fit
      by (metis div_mult_mod_eq le_add1 mult.commute order_le_less_trans)
    then have jr: "?j < r" by (simp only: mult_less_cancel1)
    have le: "?n * ?j \<le> q" by simp
    have rem: "q - ?n * ?j = q mod ?n" by (simp add: minus_mult_div_eq_mod)
    have "bit (field_at bits b ?j) (q - ?n * ?j)"
      using bits b n le by (simp add: field_eq bit_take_bit_iff bit_drop_bit_eq rem)
    with jr le q show "bit (or_fields bits (field_at bits b) r) q"
      using bits by (auto simp: bit_or_fields)
  qed
qed

section \<open>Slices and supported widths\<close>

lemma or_fields_cong:
  "(\<And>j. j < r \<Longrightarrow> f j = g j) \<Longrightarrow> or_fields bits f r = or_fields bits g r"
  by (induction r) simp_all

lemma slice_nth:
  "k + r \<le> length v \<Longrightarrow> map (\<lambda>j. v ! (k + j)) [0..<r] = take r (drop k v)"
  by (rule nth_equalityI) simp_all

lemma concat_slices:
  "m * r \<le> length v \<Longrightarrow>
   concat (map (\<lambda>i. map (\<lambda>j. v ! (i * r + j)) [0..<r]) [0..<m]) = take (m * r) v"
proof (induction m)
  case 0
  then show ?case by simp
next
  case (Suc m)
  then have "m * r + r \<le> length v" by simp
  then have "map (\<lambda>j. v ! (m * r + j)) [0..<r] = take r (drop (m * r) v)"
    by (rule slice_nth)
  moreover have "take (m * r + r) v = take (m * r) v @ take r (drop (m * r) v)"
    by (rule take_add)
  ultimately show ?case using Suc by (simp add: add.commute)
qed

lemma nth_concat_fields:
  "i < length p \<Longrightarrow> j < r \<Longrightarrow>
   concat (map (\<lambda>b. map (g b) [0..<r]) p) ! (i * r + j) = g (p ! i) j"
proof (induction p arbitrary: i)
  case Nil
  then show ?case by simp
next
  case (Cons b bs)
  show ?case
  proof (cases i)
    case 0
    with Cons.prems show ?thesis by (simp add: nth_append)
  next
    case (Suc i')
    with Cons.prems have "i' < length bs" by simp
    from Cons.IH [OF this Cons.prems(2)] Suc Cons.prems(2)
    show ?thesis by (simp add: nth_append add.assoc)
  qed
qed

lemma length_concat_map_fields:
  "length (concat (map (\<lambda>b. map (g b) [0..<r]) p)) = length p * r"
  by (induction p) simp_all

lemma supported_pos: "bits \<in> {1, 2, 4, 8} \<Longrightarrow> 0 < (bits::int)"
  by auto

lemma supported_fill: "(bits::int) \<in> {1, 2, 4, 8} \<Longrightarrow> nat bits * nat (8 div bits) = 8"
  by auto

lemma supported_aligned:
  "(bits::int) \<in> {1, 2, 4, 8} \<Longrightarrow> int len mod (8 div bits) = 0 \<Longrightarrow> int len * bits mod 8 = 0"
  by (elim insertE emptyE) (simp_all, presburger+)

lemma quarter: "int len * 2 mod 8 = 0 \<Longrightarrow> nat (int len div 4) * 4 = len"
  by (simp add: nat_div_distrib) presburger

lemma half: "int len * 4 mod 8 = 0 \<Longrightarrow> nat (int len div 2) * 2 = len"
  by (simp add: nat_div_distrib) presburger

lemma eighth: "int len mod 8 = 0 \<Longrightarrow> nat (int len div 8) * 8 = len"
  by (simp add: nat_div_distrib) presburger

lemma supported_num_values:
  "(bits::int) \<in> {1, 2, 4, 8} \<Longrightarrow> int len * bits mod 8 = 0 \<Longrightarrow>
   nat (int len * bits div 8) * nat (8 div bits) = len"
  by (elim insertE emptyE) (simp_all add: quarter half eighth)

lemma supported_unpacked_length:
  "(bits::int) \<in> {1, 2, 4, 8} \<Longrightarrow> nat (int len * 8 div bits) = len * nat (8 div bits)"
  by (elim insertE emptyE) simp_all

section \<open>Closed forms on supported widths\<close>

lemma pack_supported:
  assumes "bits \<in> {1, 2, 4, 8}" and "int (length v) * bits mod 8 = 0"
  shows "pack_weights v bits
    = Inr (map (\<lambda>i. or_fields bits (\<lambda>j. v ! (i * nat (8 div bits) + j)) (nat (8 div bits)))
             [0..<nat (int (length v) * bits div 8)])"
  using assms by (intro pack_weights_closed supported_pos)

lemma unpack_supported:
  assumes "bits \<in> {1, 2, 4, 8}"
  shows "unpack_weights p bits
    = Inr (concat (map (\<lambda>b. map (field_at bits b) [0..<nat (8 div bits)]) p))"
  using assms by (simp add: unpack_weights_closed supported_pos supported_unpacked_length)

lemma unpack_then_pack:
  assumes bits: "bits \<in> {1, 2, 4, 8}"
  shows "then_do (unpack_weights p bits) (\<lambda>w. pack_weights w bits) = Inr p"
proof -
  let ?r = "nat (8 div bits)"
  let ?W = "concat (map (\<lambda>b. map (field_at bits b) [0..<?r]) p)"
  have lenW: "length ?W = length p * ?r" by (rule length_concat_map_fields)
  have al: "int (length ?W) * bits mod 8 = 0"
    unfolding lenW using bits by (elim insertE emptyE) simp_all
  have N: "nat (int (length ?W) * bits div 8) = length p"
    unfolding lenW using bits by (elim insertE emptyE) simp_all
  have byte: "or_fields bits (\<lambda>j. ?W ! (i * ?r + j)) ?r = p ! i" if i: "i < length p" for i
  proof -
    have "or_fields bits (\<lambda>j. ?W ! (i * ?r + j)) ?r = or_fields bits (field_at bits (p ! i)) ?r"
      by (rule or_fields_cong) (simp add: nth_concat_fields i)
    also have "\<dots> = p ! i"
      by (rule or_fields_field [OF supported_pos [OF bits] supported_fill [OF bits]])
    finally show ?thesis .
  qed
  have "pack_weights ?W bits
      = Inr (map (\<lambda>i. or_fields bits (\<lambda>j. ?W ! (i * ?r + j)) ?r) [0..<length p])"
    using pack_supported [OF bits al] by (simp only: N)
  also have "map (\<lambda>i. or_fields bits (\<lambda>j. ?W ! (i * ?r + j)) ?r) [0..<length p]
      = map (\<lambda>i. p ! i) [0..<length p]"
    by (rule map_cong [OF refl]) (simp add: byte)
  also have "\<dots> = p" by (rule map_nth)
  finally show ?thesis by (simp add: unpack_supported [OF bits])
qed

section \<open>Error paths, lengths and shifts\<close>

lemma pack_misaligned:
  assumes "bits \<noteq> 0" and "int (length v) * bits mod 8 \<noteq> 0"
  shows "pack_weights v bits = Inl (ValueError (8 div bits))"
  using assms by (simp add: pack_weights_def floordiv_def)

lemma pack_zero_bits: "pack_weights v 0 = Inl ZeroDivisionError"
  by (simp add: pack_weights_def floordiv_def)

lemma unpack_zero_bits: "unpack_weights p 0 = Inl ZeroDivisionError"
  by (simp add: unpack_weights_def floordiv_def)

lemma pack_negative_bits:
  assumes "bits < 0" and "int (length v) * bits mod 8 = 0"
  shows "pack_weights v bits = (if v = [] then Inr [] else Inl RuntimeError)"
proof (cases "v = []")
  case True
  with assms show ?thesis
    by (simp add: pack_weights_def floordiv_def zeros_def for_range_def)
next
  case False
  then have "int (length v) * bits < 0" using assms(1) by (simp add: mult_pos_neg)
  then have "int (length v) * bits div 8 < 0" by (simp add: pos_imp_zdiv_neg_iff)
  with assms False show ?thesis
    by (simp add: pack_weights_def floordiv_def zeros_def)
qed

lemma unpack_negative_bits:
  assumes "bits < 0"
  shows "unpack_weights p bits = (if p = [] then Inr [] else Inl RuntimeError)"
proof (cases "p = []")
  case True
  with assms show ?thesis
    by (simp add: unpack_weights_def floordiv_def zeros_def for_range_def)
next
  case False
  then have "0 < int (length p) * 8" by simp
  then have "int (length p) * 8 div bits < 0" using assms by (simp add: neg_imp_zdiv_neg_iff)
  with assms False show ?thesis
    by (simp add: unpack_weights_def floordiv_def zeros_def)
qed

lemma length_pack_closed:
  assumes "0 < bits" and "int (length v) * bits mod 8 = 0"
  shows "\<exists>q. pack_weights v bits = Inr q \<and> int (length q) = int (length v) * bits div 8"
proof -
  have "0 \<le> int (length v) * bits div 8"
    using assms(1) by (simp add: pos_imp_zdiv_nonneg_iff)
  then show ?thesis by (simp add: pack_weights_closed [OF assms])
qed

lemma length_unpack_closed:
  assumes "0 < bits"
  shows "\<exists>w. unpack_weights p bits = Inr w \<and> int (length w) = int (length p) * 8 div bits"
proof -
  have "0 \<le> int (length p) * 8 div bits"
    using assms by (simp add: pos_imp_zdiv_nonneg_iff)
  moreover have "length p * nat (8 div bits) \<le> nat (int (length p) * 8 div bits)"
    using assms by (rule values_fit)
  ultimately show ?thesis
    by (simp add: unpack_weights_closed [OF assms] length_concat_map_fields)
qed


section \<open>The claims\<close>

subsection \<open>Round trips\<close>

text \<open>
  C1: for every bits in {1, 2, 4, 8} and every sequence v whose length is a multiple of
  8 / bits and whose elements all lie in [0, 2^bits - 1], packing v and then unpacking
  the result with the same bits succeeds and gives back exactly v.
\<close>

theorem round_trip:
  assumes bits: "bits \<in> {1, 2, 4, 8}"
    and len: "int (length v) mod (8 div bits) = 0"
    and range: "\<forall>x\<in>set v. uint x \<le> 2 ^ nat bits - 1"
  shows "then_do (pack_weights v bits) (\<lambda>p. unpack_weights p bits) = Inr v"
proof -
  let ?r = "nat (8 div bits)"
  let ?N = "nat (int (length v) * bits div 8)"
  let ?F = "\<lambda>i. or_fields bits (\<lambda>j. v ! (i * ?r + j)) ?r"
  have al: "int (length v) * bits mod 8 = 0"
    using bits len by (rule supported_aligned)
  have Nr: "?N * ?r = length v"
    using bits al by (rule supported_num_values)
  have pack: "pack_weights v bits = Inr (map ?F [0..<?N])"
    using bits al by (rule pack_supported)
  have fld: "field_at bits (?F i) j = v ! (i * ?r + j)" if i: "i < ?N" and j: "j < ?r" for i j
  proof (rule field_or_fields [OF supported_pos [OF bits] _ _ j])
    show "nat bits * ?r \<le> 8" using supported_fill [OF bits] by simp
  next
    fix j' assume j': "j' < ?r"
    have "Suc i * ?r \<le> ?N * ?r" using i by (intro mult_le_mono1) simp
    then have "i * ?r + j' < length v" using j' Nr by simp
    then have "v ! (i * ?r + j') \<in> set v" by (rule nth_mem)
    with range show "uint (v ! (i * ?r + j')) \<le> 2 ^ nat bits - 1" by blast
  qed
  have row: "map (field_at bits (?F i)) [0..<?r] = map (\<lambda>j. v ! (i * ?r + j)) [0..<?r]"
    if "i < ?N" for i
    by (rule map_cong [OF refl]) (simp add: fld that)
  have rows: "map (\<lambda>i. map (field_at bits (?F i)) [0..<?r]) [0..<?N]
      = map (\<lambda>i. map (\<lambda>j. v ! (i * ?r + j)) [0..<?r]) [0..<?N]"
    by (rule map_cong [OF refl]) (simp add: row)
  have "concat (map (\<lambda>b. map (field_at bits b) [0..<?r]) (map ?F [0..<?N]))
      = concat (map (\<lambda>i. map (field_at bits (?F i)) [0..<?r]) [0..<?N])"
    by (simp add: comp_def)
  also have "\<dots> = concat (map (\<lambda>i. map (\<lambda>j. v ! (i * ?r + j)) [0..<?r]) [0..<?N])"
    by (simp only: rows)
  also have "\<dots> = take (?N * ?r) v" by (rule concat_slices) (simp add: Nr)
  also have "\<dots> = v" by (simp add: Nr)
  finally show ?thesis by (simp add: pack unpack_supported [OF bits])
qed

theorem round_trip_witness:
  "then_do (pack_weights [1, 0, 3, 2] 2) (\<lambda>p. unpack_weights p 2) = Inr [1, 0, 3, 2]"
proof -
  have b: "(2::int) \<in> {1, 2, 4, 8}" by simp
  have l: "int (length [1, 0, 3, 2::uint8]) mod (8 div 2) = 0" by simp
  have r: "\<forall>x\<in>set [1, 0, 3, 2::uint8]. uint x \<le> 2 ^ nat 2 - 1" by simp
  show ?thesis by (rule round_trip [OF b l r])
qed

text \<open>
  C7: for every packed buffer p that a successful call of pack with bit width b in
  {1, 2, 4, 8} has returned, unpacking p and packing the result again, both with b,
  succeeds and gives back exactly p.
\<close>

theorem unpack_pack_identity:
  assumes "bits \<in> {1, 2, 4, 8}" and "pack_weights v bits = Inr p"
  shows "then_do (unpack_weights p bits) (\<lambda>w. pack_weights w bits) = Inr p"
  using assms(1) by (rule unpack_then_pack)

theorem unpack_pack_identity_witness:
  "then_do (unpack_weights [177] 2) (\<lambda>w. pack_weights w 2) = Inr [177]"
proof -
  have b: "(2::int) \<in> {1, 2, 4, 8}" by simp
  have p: "pack_weights [1, 0, 3, 2] 2 = Inr [177]" by code_simp
  show ?thesis by (rule unpack_pack_identity [OF b p])
qed

subsection \<open>Validation and errors\<close>

text \<open>
  C2, as the specification states it: an input with an element outside [0, 2^bits - 1]
  makes pack fail with a ValueOutOfRange error, in particular pack([1, 4, 0, 0], bits=2).
  The code has no such check: the element 4 at index 1 exceeds 2^2 - 1, and the call
  returns the buffer [17].
\<close>

theorem pack_accepts_out_of_range:
  "\<not> uint ([1, 4, 0, 0 :: uint8] ! 1) \<le> 2 ^ nat 2 - 1
   \<and> pack_weights [1, 4, 0, 0] 2 = Inr [17]"
  by code_simp

text \<open>
  C2, amended: pack does not validate the range of the elements. For every bits in
  {1, 2, 4, 8} and every uint8 sequence v whose length is a multiple of 8 / bits,
  whatever its elements are, pack returns the buffer of len(v) * bits / 8 bytes whose
  byte i is the OR of the elements v[i * (8 / bits) + j], each shifted left by bits * j
  within 8 bits, for j below 8 / bits.
\<close>

theorem pack_without_range_check:
  assumes "bits \<in> {1, 2, 4, 8}" and "int (length v) mod (8 div bits) = 0"
  shows "pack_weights v bits
    = Inr (map (\<lambda>i. or_fields bits (\<lambda>j. v ! (i * nat (8 div bits) + j)) (nat (8 div bits)))
             [0..<nat (int (length v) * bits div 8)])"
  using assms by (intro pack_supported supported_aligned)

theorem pack_without_range_check_witness:
  "pack_weights [1, 4, 0, 0] 2
    = Inr (map (\<lambda>i. or_fields 2 (\<lambda>j. [1, 4, 0, 0] ! (i * nat (8 div 2) + j)) (nat (8 div 2)))
             [0..<nat (int (length [1, 4, 0, 0 :: uint8]) * 2 div 8)])"
proof -
  have b: "(2::int) \<in> {1, 2, 4, 8}" by simp
  have l: "int (length [1, 4, 0, 0::uint8]) mod (8 div 2) = 0" by simp
  show ?thesis by (rule pack_without_range_check [OF b l])
qed

text \<open>
  C3, as the specification states it: every bits outside {1, 2, 4, 8} makes both pack and
  unpack fail with an InvalidBitWidth error. The code does not look at the value of bits:
  with bits = 3 both calls return a result.
\<close>

theorem accepts_three_bits:
  "pack_weights [1, 1, 1, 1, 1, 1, 1, 1] 3 = Inr [9, 9, 9]
   \<and> unpack_weights [177] 3 = Inr [1, 6]"
  by code_simp

text \<open>
  C3, amended: neither pack nor unpack checks bits against {1, 2, 4, 8}. For a bits
  outside that set and between - 64 and 64: bits = 0 makes both fail with
  ZeroDivisionError; a negative bits makes unpack, and pack once its length check has
  passed, fail with RuntimeError at the allocation on a non-empty input and return an
  empty result on an empty input; a positive bits makes unpack return len * 8 // bits
  elements and pack return len * bits // 8 bytes once its length check has passed;
  pack's length check fails with the ValueError naming 8 // bits whenever len * bits is
  not a multiple of 8 and bits is not 0. Nothing is stated for a bits beyond that
  interval.
\<close>

theorem unsupported_bit_width:
  assumes "bits \<notin> {1, 2, 4, 8}" and "- 64 \<le> bits" and "bits \<le> 64"
  shows "(bits = 0 \<longrightarrow>
            pack_weights v bits = Inl ZeroDivisionError
            \<and> unpack_weights p bits = Inl ZeroDivisionError)
    \<and> (bits < 0 \<longrightarrow>
            unpack_weights p bits = (if p = [] then Inr [] else Inl RuntimeError)
            \<and> (int (length v) * bits mod 8 = 0 \<longrightarrow>
                 pack_weights v bits = (if v = [] then Inr [] else Inl RuntimeError)))
    \<and> (0 < bits \<longrightarrow>
            (\<exists>w. unpack_weights p bits = Inr w
               \<and> int (length w) = int (length p) * 8 div bits)
            \<and> (int (length v) * bits mod 8 = 0 \<longrightarrow>
                 (\<exists>q. pack_weights v bits = Inr q
                    \<and> int (length q) = int (length v) * bits div 8)))
    \<and> (bits \<noteq> 0 \<and> int (length v) * bits mod 8 \<noteq> 0 \<longrightarrow>
            pack_weights v bits = Inl (ValueError (8 div bits)))"
  by (simp add: pack_zero_bits unpack_zero_bits pack_negative_bits unpack_negative_bits
      length_pack_closed length_unpack_closed pack_misaligned)

theorem unsupported_bit_width_witness:
  "(\<exists>w. unpack_weights [177] 3 = Inr w \<and> int (length w) = 2)
   \<and> (\<exists>q. pack_weights [1, 1, 1, 1, 1, 1, 1, 1] 3 = Inr q \<and> int (length q) = 3)
   \<and> pack_weights [1, 2, 3] 3 = Inl (ValueError 2)
   \<and> pack_weights [1, 2, 3] 0 = Inl ZeroDivisionError
   \<and> unpack_weights [177] 0 = Inl ZeroDivisionError
   \<and> unpack_weights [177] (- 1) = Inl RuntimeError
   \<and> pack_weights [1, 2, 3, 4, 5, 6, 7, 8] (- 1) = Inl RuntimeError"
  using unsupported_bit_width [of 3 "[1, 1, 1, 1, 1, 1, 1, 1]" "[177]"]
    unsupported_bit_width [of 3 "[1, 2, 3]" "[177]"]
    unsupported_bit_width [of 0 "[1, 2, 3]" "[177]"]
    unsupported_bit_width [of "- 1" "[1, 2, 3, 4, 5, 6, 7, 8]" "[177]"]
  by simp

text \<open>
  C4: for every supported bits and every input whose length times bits is not a multiple
  of 8, pack fails with the error of a misaligned length, which names the required
  multiple 8 / bits, and returns no buffer; pack([1, 2, 3], bits=2) fails so, naming 4.
  The code raises it as a ValueError.
\<close>

theorem pack_rejects_misaligned:
  assumes "bits \<in> {1, 2, 4, 8}" and "int (length v) * bits mod 8 \<noteq> 0"
  shows "pack_weights v bits = Inl (ValueError (8 div bits))"
proof -
  have "bits \<noteq> 0" using assms(1) by auto
  then show ?thesis using assms(2) by (rule pack_misaligned)
qed

theorem pack_rejects_misaligned_witness:
  "pack_weights [1, 2, 3] 2 = Inl (ValueError 4)"
proof -
  have b: "(2::int) \<in> {1, 2, 4, 8}" by simp
  have l: "int (length [1, 2, 3::uint8]) * 2 mod 8 \<noteq> 0" by simp
  show ?thesis using pack_rejects_misaligned [OF b l] by simp
qed

subsection \<open>Lengths and boundaries\<close>

text \<open>
  C5: for every supported bits, pack succeeds on every input whose length times bits is
  a multiple of 8, every buffer pack returns has exactly len(v) * bits / 8 bytes, and
  unpack succeeds on every byte sequence p, with no alignment condition, and returns
  exactly len(p) * 8 / bits elements.
\<close>

theorem length_law:
  assumes "bits \<in> {1, 2, 4, 8}"
  shows "(int (length v) * bits mod 8 = 0 \<longrightarrow> (\<exists>q. pack_weights v bits = Inr q))
    \<and> (\<forall>q. pack_weights v bits = Inr q \<longrightarrow>
            int (length q) * 8 = int (length v) * bits)
    \<and> (\<exists>w. unpack_weights p bits = Inr w
           \<and> int (length w) * bits = int (length p) * 8)"
proof (intro conjI impI allI)
  have pos: "0 < bits" using assms by (rule supported_pos)
  show "\<exists>q. pack_weights v bits = Inr q" if "int (length v) * bits mod 8 = 0"
    using length_pack_closed [OF pos that] by blast
  show "int (length q) * 8 = int (length v) * bits" if q: "pack_weights v bits = Inr q" for q
  proof (cases "int (length v) * bits mod 8 = 0")
    case True
    from length_pack_closed [OF pos True] q
    have "int (length q) = int (length v) * bits div 8" by simp
    with True show ?thesis by (simp add: mod_0_imp_dvd)
  next
    case False
    with pos q show ?thesis by (simp add: pack_misaligned)
  qed
  have "int (length p) * 8 div bits * bits = int (length p) * 8"
    using assms by (elim insertE emptyE) simp_all
  then show "\<exists>w. unpack_weights p bits = Inr w \<and> int (length w) * bits = int (length p) * 8"
    using length_unpack_closed [OF pos, of p] by auto
qed

theorem length_law_witness:
  "(\<exists>q. pack_weights [1, 0, 3, 2] 2 = Inr q)
   \<and> int (length [177 :: uint8]) * 8 = int (length [1, 0, 3, 2 :: uint8]) * 2
   \<and> (\<exists>w. unpack_weights [177] 2 = Inr w \<and> int (length w) * 2 = int (length [177 :: uint8]) * 8)"
proof -
  have b: "(2::int) \<in> {1, 2, 4, 8}" by simp
  have p: "pack_weights [1, 0, 3, 2] 2 = Inr [177]" by code_simp
  show ?thesis using length_law [OF b, of "[1, 0, 3, 2]" "[177]"] p by simp
qed

text \<open>
  C8: for every supported bits, pack of the empty sequence succeeds with the empty buffer
  and unpack of the empty buffer succeeds with the empty sequence.
\<close>

theorem empty_boundary:
  assumes "bits \<in> {1, 2, 4, 8}"
  shows "pack_weights [] bits = Inr [] \<and> unpack_weights [] bits = Inr []"
proof -
  have "bits \<noteq> 0" using assms by auto
  then show ?thesis
    by (simp add: pack_weights_def unpack_weights_def floordiv_def zeros_def for_range_def)
qed

theorem empty_boundary_witness:
  "pack_weights [] 4 = Inr [] \<and> unpack_weights [] 4 = Inr []"
proof -
  have b: "(4::int) \<in> {1, 2, 4, 8}" by simp
  show ?thesis by (rule empty_boundary [OF b])
qed

subsection \<open>Bit layout\<close>

text \<open>
  C6: the least-significant-first layout on the literal scenarios:
  pack([1, 0, 3, 2], bits=2) is [177] and unpack([177], bits=2) is [1, 0, 3, 2];
  pack([15, 0], bits=4) is [15] and unpack([255], bits=4) is [15, 15].
\<close>

theorem bit_layout_scenarios:
  "pack_weights [1, 0, 3, 2] 2 = Inr [177]
   \<and> unpack_weights [177] 2 = Inr [1, 0, 3, 2]
   \<and> pack_weights [15, 0] 4 = Inr [15]
   \<and> unpack_weights [255] 4 = Inr [15, 15]"
  by code_simp



text \<open>
  C10: for every byte sequence p and every bits in {1, 2, 4, 8}, unpack succeeds and
  every element of its result lies in [0, 2^bits - 1].
\<close>

theorem unpack_in_range:
  assumes "bits \<in> {1, 2, 4, 8}"
  shows "\<exists>w. unpack_weights p bits = Inr w \<and> (\<forall>x\<in>set w. uint x \<le> 2 ^ nat bits - 1)"
proof -
  have "0 \<le> bits" using supported_pos [OF assms] by simp
  then have "uint (field_at bits b j) < 2 ^ nat bits" for b j
    using field_in_range [of bits b j] by simp
  then have "\<forall>x\<in>set (concat (map (\<lambda>b. map (field_at bits b) [0..<nat (8 div bits)]) p)).
      uint x \<le> 2 ^ nat bits - 1"
    by auto
  then show ?thesis by (simp add: unpack_supported [OF assms])
qed

theorem unpack_in_range_witness:
  "\<exists>w. unpack_weights [255, 177] 2 = Inr w
     \<and> list_all (\<lambda>x. uint x \<le> 2 ^ nat 2 - 1) w"
proof -
  have b: "(2::int) \<in> {1, 2, 4, 8}" by simp
  show ?thesis using unpack_in_range [OF b, of "[255, 177]"] by (simp add: list_all_iff)
qed

end
